theory Spec2Isabelle
  imports Main
begin

section \<open>Python strings\<close>

text \<open>
  A Python \<open>str\<close> is a sequence of Unicode code points. A code point is a natural number
  here, so that the characters the program names (U+00A0, U+2007, U+202F, U+FEFF, ...)
  are single elements, as they are in Python.
\<close>

type_synonym uchar = nat
type_synonym ustring = "uchar list"

text \<open>An ASCII literal as a Python string.\<close>

definition ascii :: "string \<Rightarrow> ustring" where
  "ascii s = map of_char s"

text \<open>
  \<open>str.isspace\<close> on one character: the white space of CPython's Unicode database
  (bidirectional class WS, B or S, or category Zs). \<open>str.strip()\<close> and \<open>str.split()\<close>
  without argument use exactly this set.
\<close>

definition isspace :: "uchar \<Rightarrow> bool" where
  "isspace c =
     ((9 \<le> c \<and> c \<le> 13) \<or> (28 \<le> c \<and> c \<le> 32) \<or> c = 133 \<or> c = 160 \<or> c = 5760 \<or>
      (8192 \<le> c \<and> c \<le> 8202) \<or> c = 8232 \<or> c = 8233 \<or> c = 8239 \<or> c = 8287 \<or>
      c = 12288)"

text \<open>
  The line boundaries of \<open>str.splitlines()\<close>: LF, VT, FF, CR, FS, GS, RS, NEL, LS, PS
  (and CR LF, taken as one boundary).
\<close>

definition is_linebreak :: "uchar \<Rightarrow> bool" where
  "is_linebreak c =
     ((10 \<le> c \<and> c \<le> 13) \<or> (28 \<le> c \<and> c \<le> 30) \<or> c = 133 \<or> c = 8232 \<or> c = 8233)"

text \<open>What \<open>splitlines\<close> skips after a line: one boundary, CR LF counting as one.\<close>

fun skip_linebreak :: "ustring \<Rightarrow> ustring" where
  "skip_linebreak [] = []"
| "skip_linebreak [c] = []"
| "skip_linebreak (c # d # r) = (if c = 13 \<and> d = 10 then r else d # r)"

text \<open>
  \<open>str.splitlines()\<close> (keepends false), as CPython scans: take the characters up to the
  next boundary as a line, skip the boundary, repeat until the text is used up. A text
  that ends in a boundary has no empty last line; the empty text has no line.
\<close>

function splitlines :: "ustring \<Rightarrow> ustring list" where
  "splitlines s =
     (if s = [] then []
      else takeWhile (\<lambda>c. \<not> is_linebreak c) s #
           splitlines (skip_linebreak (dropWhile (\<lambda>c. \<not> is_linebreak c) s)))"
  by pat_completeness auto

termination splitlines
proof (relation "measure length")
  show "wf (measure length)" by simp
next
  fix s :: ustring
  assume ne: "s \<noteq> []"
  let ?d = "dropWhile (\<lambda>c. \<not> is_linebreak c) s"
  have "length (skip_linebreak t) \<le> length t - 1" for t
    by (cases t rule: skip_linebreak.cases) auto
  then have "length (skip_linebreak ?d) \<le> length ?d - 1" .
  moreover have "length ?d \<le> length s"
    by (rule length_dropWhile_le)
  moreover have "0 < length s"
    using ne by simp
  ultimately have "length (skip_linebreak ?d) < length s"
    by arith
  then show "(skip_linebreak ?d, s) \<in> measure length"
    by simp
qed

declare splitlines.simps [simp del]

text \<open>\<open>str.strip()\<close>: white space removed from both ends.\<close>

definition lstrip :: "ustring \<Rightarrow> ustring" where
  "lstrip s = dropWhile isspace s"

definition rstrip :: "ustring \<Rightarrow> ustring" where
  "rstrip s = rev (dropWhile isspace (rev s))"

definition strip :: "ustring \<Rightarrow> ustring" where
  "strip s = rstrip (lstrip s)"

text \<open>
  \<open>str.split()\<close> without argument: the maximal runs of characters that are not white
  space, in order; \<open>cur\<close> is the run being read. No run is empty.
\<close>

fun split_scan :: "ustring \<Rightarrow> ustring \<Rightarrow> ustring list" where
  "split_scan cur [] = (if cur = [] then [] else [cur])"
| "split_scan cur (c # cs) =
     (if isspace c then (if cur = [] then split_scan [] cs else cur # split_scan [] cs)
      else split_scan (cur @ [c]) cs)"

definition split_ws :: "ustring \<Rightarrow> ustring list" where
  "split_ws s = split_scan [] s"

text \<open>\<open>"\n".join(lines)\<close>.\<close>

fun join_nl :: "ustring list \<Rightarrow> ustring" where
  "join_nl [] = []"
| "join_nl [l] = l"
| "join_nl (l # m # ls) = l @ 10 # join_nl (m # ls)"

text \<open>
  \<open>text.split("\n")\<close>, as \<open>render_page_to_image\<close> takes a page apart into its lines:
  the pieces between the line feeds, \<open>cur\<close> being the piece that is read. The result is
  never empty; the empty string gives one empty piece.
\<close>

fun split_scan_nl :: "ustring \<Rightarrow> ustring \<Rightarrow> ustring list" where
  "split_scan_nl cur [] = [cur]"
| "split_scan_nl cur (c # cs) =
     (if c = 10 then cur # split_scan_nl [] cs else split_scan_nl (cur @ [c]) cs)"

definition split_nl :: "ustring \<Rightarrow> ustring list" where
  "split_nl s = split_scan_nl [] s"

section \<open>The paginator\<close>

text \<open>
  Line 92: \<open>len(line.strip().split()) if line.strip() else 0\<close>.
\<close>

definition words_in_line :: "ustring \<Rightarrow> int" where
  "words_in_line line =
     (if strip line \<noteq> [] then int (length (split_ws (strip line))) else 0)"

text \<open>
  The loop of \<open>chunk_into_pages_by_words_and_lines\<close> (lines 91 to 100). The state is
  \<open>(pages, current_lines, current_word_count)\<close>; one step closes the page when the line
  would take it over the budget and the page has a line, then appends the line.
\<close>

type_synonym chunk_state = "ustring list \<times> ustring list \<times> int"

fun chunk_loop :: "int \<Rightarrow> ustring list \<Rightarrow> chunk_state \<Rightarrow> chunk_state" where
  "chunk_loop words_per_page [] st = st"
| "chunk_loop words_per_page (line # rest) (pages, current_lines, current_word_count) =
     (let words_in_line = words_in_line line in
      if current_word_count + words_in_line > words_per_page \<and> current_lines \<noteq> []
      then chunk_loop words_per_page rest
             (pages @ [join_nl current_lines], [] @ [line], 0 + words_in_line)
      else chunk_loop words_per_page rest
             (pages, current_lines @ [line], current_word_count + words_in_line))"

text \<open>Lines 85 to 105: split the text into lines, run the loop, emit the open page.\<close>

definition chunk_into_pages_by_words_and_lines :: "ustring \<Rightarrow> int \<Rightarrow> ustring list" where
  "chunk_into_pages_by_words_and_lines text words_per_page =
     (case chunk_loop words_per_page (splitlines text) ([], [], 0) of
        (pages, current_lines, current_word_count) \<Rightarrow>
          if current_lines \<noteq> [] then pages @ [join_nl current_lines] else pages)"

text \<open>
  The same loop with every page kept as the list of its lines, that is, before
  \<open>"\n".join\<close> is applied: the page slices of the line sequence.
\<close>

type_synonym slice_state = "ustring list list \<times> ustring list \<times> int"

fun slice_loop :: "int \<Rightarrow> ustring list \<Rightarrow> slice_state \<Rightarrow> slice_state" where
  "slice_loop words_per_page [] st = st"
| "slice_loop words_per_page (line # rest) (slices, current_lines, current_word_count) =
     (let words_in_line = words_in_line line in
      if current_word_count + words_in_line > words_per_page \<and> current_lines \<noteq> []
      then slice_loop words_per_page rest
             (slices @ [current_lines], [] @ [line], 0 + words_in_line)
      else slice_loop words_per_page rest
             (slices, current_lines @ [line], current_word_count + words_in_line))"

definition finish :: "slice_state \<Rightarrow> ustring list list" where
  "finish st =
     (case st of (slices, current_lines, current_word_count) \<Rightarrow>
        if current_lines \<noteq> [] then slices @ [current_lines] else slices)"

definition page_slices :: "ustring list \<Rightarrow> int \<Rightarrow> ustring list list" where
  "page_slices lines words_per_page = finish (slice_loop words_per_page lines ([], [], 0))"

section \<open>The text normaliser\<close>

text \<open>
  Lines 46 to 62 of \<open>download_and_store_script\<close>, the part between the HTML extraction
  and the write of the cache file. \<open>str.replace\<close> with a pattern of one character puts
  the new string in place of each occurrence.
\<close>

definition replace_char :: "uchar \<Rightarrow> ustring \<Rightarrow> ustring \<Rightarrow> ustring" where
  "replace_char old new s = concat (map (\<lambda>c. if c = old then new else [c]) s)"

text \<open>
  Lines 46 to 52: NBSP (U+00A0), figure space (U+2007) and narrow NBSP (U+202F) become
  one space, then a tab becomes four spaces.
\<close>

definition replace_spaces :: "ustring \<Rightarrow> ustring" where
  "replace_spaces text =
     replace_char 9 [32, 32, 32, 32]
       (replace_char 8239 [32] (replace_char 8199 [32] (replace_char 160 [32] text)))"

text \<open>
  Line 59, \<open>re.sub(r"^[\ufeff\u200b\u200c\u200d]+", "", line)\<close>: without the MULTILINE
  flag the anchor matches at the start of the string only, so the one possible match is
  the leading run of these four marks.
\<close>

definition is_mark :: "uchar \<Rightarrow> bool" where
  "is_mark c = (c = 65279 \<or> c = 8203 \<or> c = 8204 \<or> c = 8205)"

definition strip_leading_marks :: "ustring \<Rightarrow> ustring" where
  "strip_leading_marks line = dropWhile is_mark line"

text \<open>Line 60, \<open>line.rstrip("\r\n")\<close>: trailing CR and LF characters removed.\<close>

definition rstrip_crlf :: "ustring \<Rightarrow> ustring" where
  "rstrip_crlf line = rev (dropWhile (\<lambda>c. c = 13 \<or> c = 10) (rev line))"

text \<open>Lines 56 to 60: the list \<open>lines\<close> when the loop is done.\<close>

definition cleaned_lines :: "ustring \<Rightarrow> ustring list" where
  "cleaned_lines text =
     map (\<lambda>line. rstrip_crlf (strip_leading_marks line)) (splitlines (replace_spaces text))"

text \<open>Line 62: \<open>cleaned\<close>, the text that is written to the cache and returned.\<close>

definition normalise :: "ustring \<Rightarrow> ustring" where
  "normalise text = join_nl (cleaned_lines text)"

text \<open>
  What the loop of lines 57 to 60 makes of one line of the input text: the substitutions of
  lines 46 to 52 act inside the line, then lines 59 and 60.
\<close>

definition clean_line :: "ustring \<Rightarrow> ustring" where
  "clean_line line = rstrip_crlf (strip_leading_marks (replace_spaces line))"

text \<open>
  A substitution that leaves every line boundary as it is, and puts for any other
  character a string that is not empty and has no line boundary, commutes with
  \<open>splitlines\<close>.
\<close>

definition keeps_lines :: "(uchar \<Rightarrow> ustring) \<Rightarrow> bool" where
  "keeps_lines f =
     (\<forall>c. (is_linebreak c \<longrightarrow> f c = [c]) \<and>
          (\<not> is_linebreak c \<longrightarrow> f c \<noteq> [] \<and> (\<forall>x\<in>set (f c). \<not> is_linebreak x)))"

section \<open>Calendar dates\<close>

text \<open>
  \<open>datetime.date\<close>: year, month and day of the proleptic Gregorian calendar. The
  difference of two dates is the difference of their ordinals (\<open>date.__sub__\<close>), the
  ordinal being the day number counted from 0001-01-01 as day 1.
\<close>

record date =
  year :: int
  month :: int
  day :: int

definition is_leap :: "int \<Rightarrow> bool" where
  "is_leap y = (y mod 4 = 0 \<and> (y mod 100 \<noteq> 0 \<or> y mod 400 = 0))"

definition days_before_year :: "int \<Rightarrow> int" where
  "days_before_year y = (y - 1) * 365 + (y - 1) div 4 - (y - 1) div 100 + (y - 1) div 400"

definition days_in_month :: "int \<Rightarrow> int \<Rightarrow> int" where
  "days_in_month y m =
     (if m = 2 \<and> is_leap y then 29
      else [31, 28, 31, 30, 31, 30, 31, 31, 30, 31, 30, 31] ! nat (m - 1))"

definition days_before_month :: "int \<Rightarrow> int \<Rightarrow> int" where
  "days_before_month y m =
     [0, 31, 59, 90, 120, 151, 181, 212, 243, 273, 304, 334] ! nat (m - 1) +
     (if m > 2 \<and> is_leap y then 1 else 0)"

definition toordinal :: "date \<Rightarrow> int" where
  "toordinal d = days_before_year (year d) + days_before_month (year d) (month d) + day d"

text \<open>The check of the \<open>date\<close> constructor: a value outside is a ValueError.\<close>

definition valid_ymd :: "int \<Rightarrow> int \<Rightarrow> int \<Rightarrow> bool" where
  "valid_ymd y m d =
     (1 \<le> y \<and> y \<le> 9999 \<and> 1 \<le> m \<and> m \<le> 12 \<and> 1 \<le> d \<and> d \<le> days_in_month y m)"

datatype py_error = JSONDecodeError | KeyError | TypeError | ValueError | ZeroDivisionError

text \<open>A run of ASCII digits as a number; \<open>None\<close> when a character is not a digit.\<close>

fun parse_digits :: "int \<Rightarrow> ustring \<Rightarrow> int option" where
  "parse_digits acc [] = Some acc"
| "parse_digits acc (c # cs) =
     (if 48 \<le> c \<and> c \<le> 57 then parse_digits (10 * acc + (int c - 48)) cs else None)"

text \<open>
  \<open>date.fromisoformat\<close> on the format \<open>YYYY-MM-DD\<close>, the one \<open>date.isoformat\<close> writes
  and the one every version of the function reads: ten characters, digits with a hyphen
  at positions 4 and 7, and a year, month and day that the \<open>date\<close> constructor takes.
  Anything else is a ValueError. (From Python 3.11 on the function reads further ISO 8601
  forms as well, such as \<open>YYYYMMDD\<close>; they are counted as unparsable here.)
\<close>

definition fromisoformat :: "ustring \<Rightarrow> py_error + date" where
  "fromisoformat s =
     (if length s = 10 \<and> s ! 4 = 45 \<and> s ! 7 = 45 then
        (case (parse_digits 0 (take 4 s), parse_digits 0 (take 2 (drop 5 s)),
               parse_digits 0 (drop 8 s)) of
           (Some y, Some m, Some d) \<Rightarrow>
             if valid_ymd y m d then Inr \<lparr>year = y, month = m, day = d\<rparr> else Inl ValueError
         | _ \<Rightarrow> Inl ValueError)
      else Inl ValueError)"

text \<open>\<open>date.isoformat\<close>: \<open>"%04d-%02d-%02d" % (year, month, day)\<close>.\<close>

definition digit_char :: "int \<Rightarrow> uchar" where
  "digit_char n = 48 + nat (n mod 10)"

definition isoformat :: "date \<Rightarrow> ustring" where
  "isoformat d =
     [digit_char (year d div 1000), digit_char (year d div 100), digit_char (year d div 10),
      digit_char (year d), 45,
      digit_char (month d div 10), digit_char (month d), 45,
      digit_char (day d div 10), digit_char (day d)]"

section \<open>The rotation state\<close>

text \<open>
  What \<open>json.loads\<close> returns: \<open>None\<close>, a bool, a number, a \<open>str\<close>, a list or a dict (a
  dict as the list of its items, the keys distinct). A float is not told apart from an
  integer: the program only subscripts the value with a string key, which neither has.
\<close>

datatype json =
  JNull | JBool bool | JNumber int | JStr ustring | JList "json list"
  | JDict "(ustring \<times> json) list"

text \<open>
  The file \<open>SCRIPT_DIR / f"{slug}_meta.json"\<close> is seen through \<open>json.loads\<close>, a library
  function: its content is either a text that \<open>json.loads\<close> rejects with a
  JSONDecodeError, or a JSON document, kept as the value \<open>json.loads\<close> returns for it.
  The files of \<open>SCRIPT_DIR\<close> are a map from file names; a name outside its domain does
  not exist.
\<close>

datatype file_content = Malformed | Document json

type_synonym files = "ustring \<rightharpoonup> file_content"

definition meta_path :: "ustring \<Rightarrow> ustring" where
  "meta_path slug = slug @ ascii ''_meta.json''"

text \<open>\<open>data["start_date"]\<close>: a KeyError on a dict without the key, a TypeError on any
  value that is not a dict.\<close>

fun subscript :: "json \<Rightarrow> ustring \<Rightarrow> py_error + json" where
  "subscript (JDict items) key =
     (case map_of items key of None \<Rightarrow> Inl KeyError | Some v \<Rightarrow> Inr v)"
| "subscript data key = Inl TypeError"

text \<open>\<open>dt.date.fromisoformat(v)\<close> on a JSON value: a TypeError unless it is a \<open>str\<close>.\<close>

fun date_fromisoformat :: "json \<Rightarrow> py_error + date" where
  "date_fromisoformat (JStr s) = fromisoformat s"
| "date_fromisoformat v = Inl TypeError"

text \<open>Line 195, the body of the \<open>try\<close>.\<close>

definition read_start_date :: "json \<Rightarrow> py_error + date" where
  "read_start_date data =
     (case subscript data (ascii ''start_date'') of
        Inl e \<Rightarrow> Inl e
      | Inr v \<Rightarrow> date_fromisoformat v)"

text \<open>
  Lines 199 to 204: the reset. \<open>clock\<close> is what \<open>dt.date.today()\<close> returns. The file
  then holds the JSON document of \<open>{"start_date": today.isoformat()}\<close>.
\<close>

definition reset_start_date :: "date \<Rightarrow> files \<Rightarrow> ustring \<Rightarrow> (py_error + date) \<times> files" where
  "reset_start_date clock fs slug =
     (Inr clock,
      fs(meta_path slug \<mapsto> Document (JDict [(ascii ''start_date'', JStr (isoformat clock))])))"

text \<open>
  \<open>get_or_create_start_date\<close> (lines 190 to 204), returning the result or the exception
  that leaves the function, and the files afterwards. \<open>json.loads\<close> stands before the
  \<open>try\<close>, so its exception leaves the function; an exception of line 195 is caught by
  \<open>except Exception\<close> and control falls through to the reset.
\<close>

definition get_or_create_start_date ::
  "date \<Rightarrow> files \<Rightarrow> ustring \<Rightarrow> (py_error + date) \<times> files" where
  "get_or_create_start_date clock fs slug =
     (case fs (meta_path slug) of
        None \<Rightarrow> reset_start_date clock fs slug
      | Some Malformed \<Rightarrow> (Inl JSONDecodeError, fs)
      | Some (Document data) \<Rightarrow>
          (case read_start_date data of
             Inr d \<Rightarrow> (Inr d, fs)
           | Inl e \<Rightarrow> reset_start_date clock fs slug))"

section \<open>Page selection\<close>

text \<open>
  \<open>pick_page_for_date\<close> (lines 207 to 217). \<open>today\<close> is optional, \<open>clock\<close> being what
  \<open>dt.date.today()\<close> returns when it is left out. \<open>%\<close> by the length of an empty list
  raises ZeroDivisionError; otherwise the index is in range.
\<close>

definition pick_page_for_date :: "date \<Rightarrow> 'a list \<Rightarrow> date \<Rightarrow> date option \<Rightarrow> py_error + 'a" where
  "pick_page_for_date clock image_paths start_date today_arg =
     (let today = (case today_arg of None \<Rightarrow> clock | Some t \<Rightarrow> t);
          days_since = toordinal today - toordinal start_date;
          days_since = (if days_since < 0 then 0 else days_since)
      in if length image_paths = 0 then Inl ZeroDivisionError
         else Inr (image_paths ! nat (days_since mod int (length image_paths))))"

section \<open>Properties of the paginator\<close>

subsection \<open>Lines and pages as strings\<close>

lemma splitlines_Nil: "splitlines [] = []"
  by (simp add: splitlines.simps)

lemma splitlines_no_linebreak:
  "l \<in> set (splitlines t) \<Longrightarrow> c \<in> set l \<Longrightarrow> \<not> is_linebreak c"
proof (induction t rule: splitlines.induct)
  case (1 s)
  show ?case
  proof (cases "s = []")
    case True
    with "1.prems" show ?thesis by (simp add: splitlines_Nil)
  next
    case False
    let ?rest = "skip_linebreak (dropWhile (\<lambda>c. \<not> is_linebreak c) s)"
    from False have eq: "splitlines s = takeWhile (\<lambda>c. \<not> is_linebreak c) s # splitlines ?rest"
      by (subst splitlines.simps) simp
    from "1.prems"(1) eq
    consider (head) "l = takeWhile (\<lambda>c. \<not> is_linebreak c) s" | (tail) "l \<in> set (splitlines ?rest)"
      by auto
    then show ?thesis
    proof cases
      case head
      with "1.prems"(2) show ?thesis by (auto dest: set_takeWhileD)
    next
      case tail
      with "1.IH" False "1.prems"(2) show ?thesis by blast
    qed
  qed
qed

lemma splitlines_no_lf: "l \<in> set (splitlines t) \<Longrightarrow> 10 \<notin> set l"
  using splitlines_no_linebreak [of l t 10] by (auto simp: is_linebreak_def)

text \<open>The lines of a text that was joined from lines.\<close>

lemma skip_linebreak_lf: "skip_linebreak (10 # rest) = rest"
  by (cases rest) simp_all

lemma splitlines_line_lf:
  assumes "\<forall>c\<in>set l. \<not> is_linebreak c"
  shows "splitlines (l @ 10 # rest) = l # splitlines rest"
proof -
  have lf: "is_linebreak 10" by (simp add: is_linebreak_def)
  have t: "takeWhile (\<lambda>c. \<not> is_linebreak c) (l @ 10 # rest) = l"
    using assms lf by (simp add: takeWhile_append2)
  have d: "dropWhile (\<lambda>c. \<not> is_linebreak c) (l @ 10 # rest) = 10 # rest"
    using assms lf by (simp add: dropWhile_append2)
  show ?thesis
    by (subst splitlines.simps) (simp add: t d skip_linebreak_lf)
qed

lemma splitlines_one_line:
  assumes "\<forall>c\<in>set l. \<not> is_linebreak c" and "l \<noteq> []"
  shows "splitlines l = [l]"
proof -
  have t: "takeWhile (\<lambda>c. \<not> is_linebreak c) l = l"
    using assms(1) by simp
  have d: "dropWhile (\<lambda>c. \<not> is_linebreak c) l = []"
    using assms(1) by simp
  show ?thesis
    using assms(2) by (subst splitlines.simps) (simp add: t d splitlines_Nil)
qed

lemma splitlines_join_nl:
  assumes "\<forall>l\<in>set ls. \<forall>c\<in>set l. \<not> is_linebreak c"
  shows "splitlines (join_nl ls) = (if ls \<noteq> [] \<and> last ls = [] then butlast ls else ls)"
  using assms
proof (induction ls rule: join_nl.induct)
  case 1
  show ?case by (simp add: splitlines_Nil)
next
  case (2 l)
  then show ?case
    by (cases "l = []") (simp_all add: splitlines_Nil splitlines_one_line)
next
  case (3 l m ls)
  then have "splitlines (join_nl (l # m # ls)) = l # splitlines (join_nl (m # ls))"
    by (simp add: splitlines_line_lf)
  with 3 show ?case by simp
qed

text \<open>
  Every sequence of lines, none with a line boundary inside, is the line sequence of a
  text: of the lines joined, with a final line feed.
\<close>

lemma splitlines_join_nl_lf:
  assumes "ls \<noteq> []" and "\<forall>l\<in>set ls. \<forall>c\<in>set l. \<not> is_linebreak c"
  shows "splitlines (join_nl ls @ [10]) = ls"
  using assms
proof (induction ls rule: join_nl.induct)
  case 1
  then show ?case by simp
next
  case (2 l)
  then show ?case
    using splitlines_line_lf [of l "[]"] by (simp add: splitlines_Nil)
next
  case (3 l m ls)
  then have "splitlines (l @ 10 # (join_nl (m # ls) @ [10])) =
             l # splitlines (join_nl (m # ls) @ [10])"
    by (intro splitlines_line_lf) simp
  with 3 show ?case by simp
qed

lemma split_scan_nl_line: "10 \<notin> set l \<Longrightarrow> split_scan_nl cur l = [cur @ l]"
  by (induction l arbitrary: cur) auto

lemma split_scan_nl_break:
  "10 \<notin> set l \<Longrightarrow> split_scan_nl cur (l @ 10 # r) = (cur @ l) # split_scan_nl [] r"
  by (induction l arbitrary: cur) auto

lemma split_nl_join_nl:
  "ls \<noteq> [] \<Longrightarrow> \<forall>l\<in>set ls. 10 \<notin> set l \<Longrightarrow> split_nl (join_nl ls) = ls"
proof (induction ls rule: join_nl.induct)
  case 1
  then show ?case by simp
next
  case (2 l)
  then show ?case by (simp add: split_nl_def split_scan_nl_line)
next
  case (3 l m ls)
  then have "split_scan_nl [] (join_nl (m # ls)) = m # ls"
    by (simp add: split_nl_def)
  with 3 show ?case
    by (simp add: split_nl_def split_scan_nl_break)
qed

subsection \<open>Word counts\<close>

lemma words_in_line_nonneg: "0 \<le> words_in_line l"
  by (simp add: words_in_line_def)

lemma strip_blank:
  assumes "\<forall>c\<in>set l. isspace c"
  shows "strip l = []"
proof -
  from assms have d: "dropWhile isspace l = []" by simp
  show ?thesis unfolding strip_def lstrip_def rstrip_def d by simp
qed

lemma words_in_line_blank: "\<forall>c\<in>set l. isspace c \<Longrightarrow> words_in_line l = 0"
  by (simp add: words_in_line_def strip_blank)


subsection \<open>The loop\<close>

lemma chunk_loop_slice_loop:
  "chunk_loop w ls (map join_nl S, cur, cnt) =
     (case slice_loop w ls (S, cur, cnt) of (S', cur', cnt') \<Rightarrow> (map join_nl S', cur', cnt'))"
proof (induction ls arbitrary: S cur cnt)
  case Nil
  show ?case by simp
next
  case (Cons l ls)
  show ?case
  proof (cases "cnt + words_in_line l > w \<and> cur \<noteq> []")
    case True
    have "chunk_loop w (l # ls) (map join_nl S, cur, cnt) =
          chunk_loop w ls (map join_nl (S @ [cur]), [l], words_in_line l)"
      using True by simp
    also have "\<dots> = (case slice_loop w ls (S @ [cur], [l], words_in_line l) of
                       (S', cur', cnt') \<Rightarrow> (map join_nl S', cur', cnt'))"
      by (rule Cons.IH)
    finally show ?thesis using True by simp
  next
    case False
    have "chunk_loop w (l # ls) (map join_nl S, cur, cnt) =
          chunk_loop w ls (map join_nl S, cur @ [l], cnt + words_in_line l)"
      using False by auto
    also have "\<dots> = (case slice_loop w ls (S, cur @ [l], cnt + words_in_line l) of
                       (S', cur', cnt') \<Rightarrow> (map join_nl S', cur', cnt'))"
      by (rule Cons.IH)
    finally show ?thesis using False by auto
  qed
qed

lemma chunk_into_pages_slices:
  "chunk_into_pages_by_words_and_lines text w = map join_nl (page_slices (splitlines text) w)"
proof -
  obtain S cur cnt where sl: "slice_loop w (splitlines text) ([], [], 0) = (S, cur, cnt)"
    by (cases "slice_loop w (splitlines text) ([], [], 0)") auto
  have "chunk_loop w (splitlines text) (map join_nl [], [], 0) = (map join_nl S, cur, cnt)"
    by (simp only: chunk_loop_slice_loop sl split: prod.splits) simp
  then have "chunk_loop w (splitlines text) ([], [], 0) = (map join_nl S, cur, cnt)"
    by simp
  then show ?thesis
    by (simp add: chunk_into_pages_by_words_and_lines_def page_slices_def finish_def sl)
qed

text \<open>One step of the loop, seen from the pages it will have emitted in the end.\<close>

lemma finish_slice_loop_prefix:
  "finish (slice_loop w ls (S, cur, cnt)) = S @ finish (slice_loop w ls ([], cur, cnt))"
proof (induction ls arbitrary: S cur cnt)
  case Nil
  show ?case by (simp add: finish_def)
next
  case (Cons l ls)
  show ?case
  proof (cases "cnt + words_in_line l > w \<and> cur \<noteq> []")
    case True
    have "finish (slice_loop w (l # ls) (S, cur, cnt)) =
          finish (slice_loop w ls (S @ [cur], [l], words_in_line l))"
      using True by simp
    also have "\<dots> = (S @ [cur]) @ finish (slice_loop w ls ([], [l], words_in_line l))"
      by (rule Cons.IH)
    also have "\<dots> = S @ ([cur] @ finish (slice_loop w ls ([], [l], words_in_line l)))"
      by simp
    also have "[cur] @ finish (slice_loop w ls ([], [l], words_in_line l)) =
               finish (slice_loop w ls ([cur], [l], words_in_line l))"
      by (rule Cons.IH [symmetric])
    also have "\<dots> = finish (slice_loop w (l # ls) ([], cur, cnt))"
      using True by simp
    finally show ?thesis .
  next
    case False
    have "finish (slice_loop w (l # ls) (S, cur, cnt)) =
          finish (slice_loop w ls (S, cur @ [l], cnt + words_in_line l))"
      using False by auto
    also have "\<dots> = S @ finish (slice_loop w ls ([], cur @ [l], cnt + words_in_line l))"
      by (rule Cons.IH)
    also have "finish (slice_loop w ls ([], cur @ [l], cnt + words_in_line l)) =
               finish (slice_loop w (l # ls) ([], cur, cnt))"
      using False by auto
    finally show ?thesis .
  qed
qed

lemma finish_slice_loop_flush:
  "cnt + words_in_line l > w \<Longrightarrow> cur \<noteq> [] \<Longrightarrow>
   finish (slice_loop w (l # ls) ([], cur, cnt)) =
     cur # finish (slice_loop w ls ([], [l], words_in_line l))"
  using finish_slice_loop_prefix [of w ls "[cur]" "[l]" "words_in_line l"] by simp

lemma finish_slice_loop_keep:
  "\<not> (cnt + words_in_line l > w \<and> cur \<noteq> []) \<Longrightarrow>
   finish (slice_loop w (l # ls) ([], cur, cnt)) =
     finish (slice_loop w ls ([], cur @ [l], cnt + words_in_line l))"
  by auto

lemma concat_finish_slice_loop:
  "concat (finish (slice_loop w ls ([], cur, cnt))) = cur @ ls"
proof (induction ls arbitrary: cur cnt)
  case Nil
  show ?case by (simp add: finish_def)
next
  case (Cons l ls)
  show ?case
  proof (cases "cnt + words_in_line l > w \<and> cur \<noteq> []")
    case True
    then have "finish (slice_loop w (l # ls) ([], cur, cnt)) =
               cur # finish (slice_loop w ls ([], [l], words_in_line l))"
      by (intro finish_slice_loop_flush) simp_all
    then show ?thesis by (simp add: Cons.IH del: slice_loop.simps)
  next
    case False
    then have "finish (slice_loop w (l # ls) ([], cur, cnt)) =
               finish (slice_loop w ls ([], cur @ [l], cnt + words_in_line l))"
      by (rule finish_slice_loop_keep)
    then show ?thesis by (simp add: Cons.IH del: slice_loop.simps)
  qed
qed

lemma finish_slice_loop_nonempty:
  "[] \<notin> set (finish (slice_loop w ls ([], cur, cnt)))"
proof (induction ls arbitrary: cur cnt)
  case Nil
  show ?case by (simp add: finish_def)
next
  case (Cons l ls)
  show ?case
  proof (cases "cnt + words_in_line l > w \<and> cur \<noteq> []")
    case True
    then have "finish (slice_loop w (l # ls) ([], cur, cnt)) =
               cur # finish (slice_loop w ls ([], [l], words_in_line l))"
      by (intro finish_slice_loop_flush) simp_all
    then show ?thesis using True by (auto simp: Cons.IH simp del: slice_loop.simps)
  next
    case False
    then have "finish (slice_loop w (l # ls) ([], cur, cnt)) =
               finish (slice_loop w ls ([], cur @ [l], cnt + words_in_line l))"
      by (rule finish_slice_loop_keep)
    then show ?thesis by (simp add: Cons.IH del: slice_loop.simps)
  qed
qed

lemma finish_slice_loop_budget:
  assumes "sum_list (map words_in_line cur) = cnt" and "cnt \<le> w \<or> length cur \<le> 1"
    and "p \<in> set (finish (slice_loop w ls ([], cur, cnt)))"
  shows "sum_list (map words_in_line p) \<le> w \<or> length p = 1"
  using assms
proof (induction ls arbitrary: cur cnt)
  case Nil
  then show ?case
    by (cases cur) (auto simp: finish_def split: if_splits)
next
  case (Cons l ls)
  show ?case
  proof (cases "cnt + words_in_line l > w \<and> cur \<noteq> []")
    case True
    then have "finish (slice_loop w (l # ls) ([], cur, cnt)) =
               cur # finish (slice_loop w ls ([], [l], words_in_line l))"
      by (intro finish_slice_loop_flush) simp_all
    with Cons.prems(3)
    have "p = cur \<or> p \<in> set (finish (slice_loop w ls ([], [l], words_in_line l)))"
      by (simp del: slice_loop.simps)
    then show ?thesis
    proof
      assume "p = cur"
      with True Cons.prems(1,2) show ?thesis
        by (cases cur) auto
    next
      assume "p \<in> set (finish (slice_loop w ls ([], [l], words_in_line l)))"
      then show ?thesis
        by (rule Cons.IH [rotated 2]) simp_all
    qed
  next
    case False
    then have "finish (slice_loop w (l # ls) ([], cur, cnt)) =
               finish (slice_loop w ls ([], cur @ [l], cnt + words_in_line l))"
      by (rule finish_slice_loop_keep)
    with Cons.prems(3)
    have "p \<in> set (finish (slice_loop w ls ([], cur @ [l], cnt + words_in_line l)))"
      by (simp del: slice_loop.simps)
    then show ?thesis
    proof (rule Cons.IH [rotated 2])
      show "sum_list (map words_in_line (cur @ [l])) = cnt + words_in_line l"
        using Cons.prems(1) by simp
      show "cnt + words_in_line l \<le> w \<or> length (cur @ [l]) \<le> 1"
        using False by auto
    qed
  qed
qed

text \<open>A page that is over the budget is closed by whatever line comes next.\<close>

lemma finish_slice_loop_over:
  assumes "cnt > w" and "cur \<noteq> []"
  shows "finish (slice_loop w ls ([], cur, cnt)) = cur # finish (slice_loop w ls ([], [], 0))"
proof (cases ls)
  case Nil
  with assms show ?thesis by (simp add: finish_def)
next
  case (Cons l rest)
  have "cnt + words_in_line l > w"
    using assms(1) words_in_line_nonneg [of l] by arith
  then have "finish (slice_loop w (l # rest) ([], cur, cnt)) =
             cur # finish (slice_loop w rest ([], [l], words_in_line l))"
    using assms(2) by (rule finish_slice_loop_flush)
  moreover have "finish (slice_loop w (l # rest) ([], [], 0)) =
                 finish (slice_loop w rest ([], [l], words_in_line l))"
    by simp
  ultimately show ?thesis using Cons by simp
qed

lemma finish_slice_loop_alone:
  assumes "i < length ls" and "words_in_line (ls ! i) > w" and "0 \<le> cnt"
  shows "\<exists>pre post. finish (slice_loop w ls ([], cur, cnt)) = pre @ [[ls ! i]] @ post \<and>
           concat pre = cur @ take i ls \<and> concat post = drop (Suc i) ls"
  using assms
proof (induction ls arbitrary: i cur cnt)
  case Nil
  then show ?case by simp
next
  case (Cons l ls)
  let ?wl = "words_in_line l"
  show ?case
  proof (cases i)
    case 0
    with Cons.prems have big: "?wl > w" by simp
    have tail: "finish (slice_loop w ls ([], [l], ?wl)) = [l] # finish (slice_loop w ls ([], [], 0))"
      using big by (rule finish_slice_loop_over) simp
    have post: "concat (finish (slice_loop w ls ([], [], 0))) = ls"
      by (simp add: concat_finish_slice_loop)
    show ?thesis
    proof (cases "cur = []")
      case True
      then have "finish (slice_loop w (l # ls) ([], cur, cnt)) =
                 finish (slice_loop w ls ([], [l], cnt + ?wl))"
        by simp
      also have "\<dots> = [l] # finish (slice_loop w ls ([], [], 0))"
        using big Cons.prems(3) by (intro finish_slice_loop_over) auto
      finally have "finish (slice_loop w (l # ls) ([], cur, cnt)) =
                    [] @ [[(l # ls) ! i]] @ finish (slice_loop w ls ([], [], 0))"
        using 0 by simp
      with True post 0 show ?thesis by (intro exI conjI) auto
    next
      case False
      have "cnt + ?wl > w" using big Cons.prems(3) by arith
      then have "finish (slice_loop w (l # ls) ([], cur, cnt)) =
                 cur # finish (slice_loop w ls ([], [l], ?wl))"
        using False by (rule finish_slice_loop_flush)
      with tail have "finish (slice_loop w (l # ls) ([], cur, cnt)) =
                      [cur] @ [[(l # ls) ! i]] @ finish (slice_loop w ls ([], [], 0))"
        using 0 by simp
      with post 0 show ?thesis by (intro exI conjI) auto
    qed
  next
    case (Suc j)
    with Cons.prems have j: "j < length ls" "words_in_line (ls ! j) > w" by simp_all
    show ?thesis
    proof (cases "cnt + ?wl > w \<and> cur \<noteq> []")
      case True
      from Cons.IH [OF j, of ?wl "[l]"] words_in_line_nonneg [of l]
      obtain pre post where
        pp: "finish (slice_loop w ls ([], [l], ?wl)) = pre @ [[ls ! j]] @ post"
          "concat pre = [l] @ take j ls" "concat post = drop (Suc j) ls"
        by blast
      from True have "finish (slice_loop w (l # ls) ([], cur, cnt)) =
                      cur # finish (slice_loop w ls ([], [l], ?wl))"
        by (intro finish_slice_loop_flush) simp_all
      with pp(1) have "finish (slice_loop w (l # ls) ([], cur, cnt)) =
                       (cur # pre) @ [[(l # ls) ! i]] @ post"
        using Suc by simp
      moreover have "concat (cur # pre) = cur @ take i (l # ls)"
        using pp(2) Suc by simp
      moreover have "concat post = drop (Suc i) (l # ls)"
        using pp(3) Suc by simp
      ultimately show ?thesis by blast
    next
      case False
      have "0 \<le> cnt + ?wl"
        using Cons.prems(3) words_in_line_nonneg [of l] by arith
      from Cons.IH [OF j this, of "cur @ [l]"]
      obtain pre post where
        pp: "finish (slice_loop w ls ([], cur @ [l], cnt + ?wl)) = pre @ [[ls ! j]] @ post"
          "concat pre = (cur @ [l]) @ take j ls" "concat post = drop (Suc j) ls"
        by blast
      from False have "finish (slice_loop w (l # ls) ([], cur, cnt)) =
                       finish (slice_loop w ls ([], cur @ [l], cnt + ?wl))"
        by (rule finish_slice_loop_keep)
      with pp(1) have "finish (slice_loop w (l # ls) ([], cur, cnt)) =
                       pre @ [[(l # ls) ! i]] @ post"
        using Suc by simp
      moreover have "concat pre = cur @ take i (l # ls)"
        using pp(2) Suc by simp
      moreover have "concat post = drop (Suc i) (l # ls)"
        using pp(3) Suc by simp
      ultimately show ?thesis by blast
    qed
  qed
qed

text \<open>Lines without a word never close a page.\<close>

lemma finish_slice_loop_blank:
  assumes "\<forall>l\<in>set ls. words_in_line l = 0" and "0 \<le> w" and "cur @ ls \<noteq> []"
  shows "finish (slice_loop w ls ([], cur, 0)) = [cur @ ls]"
  using assms
proof (induction ls arbitrary: cur)
  case Nil
  then show ?case by (simp add: finish_def)
next
  case (Cons l ls)
  from Cons.prems have "\<not> (0 + words_in_line l > w \<and> cur \<noteq> [])"
    by simp
  then have "finish (slice_loop w (l # ls) ([], cur, 0)) =
             finish (slice_loop w ls ([], cur @ [l], 0 + words_in_line l))"
    by (rule finish_slice_loop_keep)
  also have "\<dots> = finish (slice_loop w ls ([], cur @ [l], 0))"
    using Cons.prems by simp
  also have "\<dots> = [(cur @ [l]) @ ls]"
    using Cons.prems by (intro Cons.IH) simp_all
  finally show ?case by simp
qed

lemma page_slices_lines:
  assumes "S \<in> set (page_slices (splitlines text) w)" and "l \<in> set S"
  shows "10 \<notin> set l"
proof -
  from assms have "l \<in> set (concat (page_slices (splitlines text) w))"
    by auto
  then have "l \<in> set (splitlines text)"
    by (simp add: page_slices_def concat_finish_slice_loop)
  then show ?thesis by (rule splitlines_no_lf)
qed

lemma page_slices_split_nl:
  assumes "S \<in> set (page_slices (splitlines text) w)"
  shows "S \<noteq> [] \<and> split_nl (join_nl S) = S"
proof -
  have ne: "S \<noteq> []"
    using assms finish_slice_loop_nonempty [of w "splitlines text" "[]" 0]
    by (auto simp: page_slices_def)
  moreover have "\<forall>l\<in>set S. 10 \<notin> set l"
    using assms page_slices_lines by blast
  ultimately show ?thesis by (simp add: split_nl_join_nl)
qed

lemma map_split_nl_pages:
  "map split_nl (chunk_into_pages_by_words_and_lines text w) = page_slices (splitlines text) w"
proof -
  have "map split_nl (map join_nl (page_slices (splitlines text) w)) =
        page_slices (splitlines text) w"
    by (simp add: map_idI page_slices_split_nl)
  then show ?thesis by (simp add: chunk_into_pages_slices)
qed

text \<open>
  C1. For a text with at least one line and a positive budget, the lines of the pages
  returned by \<open>chunk_into_pages_by_words_and_lines\<close>, each page taken apart at its line
  feeds and the pages taken in order, are the lines of the text: every line is on exactly
  one page, in the original order, none dropped, doubled or split.
\<close>

theorem pages_partition_lines:
  assumes "splitlines text \<noteq> []" and "0 < words_per_page"
  shows "concat (map split_nl (chunk_into_pages_by_words_and_lines text words_per_page)) =
         splitlines text"
  by (simp add: map_split_nl_pages page_slices_def concat_finish_slice_loop)

theorem pages_partition_lines_witness:
  "splitlines (ascii ''INT. HOUSE'' @ [10, 10] @ ascii ''JOHN'' @ [10] @ ascii ''Hello there friend'') \<noteq> [] \<and>
   (0::int) < 3 \<and>
   concat (map split_nl (chunk_into_pages_by_words_and_lines
     (ascii ''INT. HOUSE'' @ [10, 10] @ ascii ''JOHN'' @ [10] @ ascii ''Hello there friend'') 3)) =
   splitlines (ascii ''INT. HOUSE'' @ [10, 10] @ ascii ''JOHN'' @ [10] @ ascii ''Hello there friend'')"
proof -
  let ?t = "ascii ''INT. HOUSE'' @ [10, 10] @ ascii ''JOHN'' @ [10] @ ascii ''Hello there friend''"
  have h1: "splitlines ?t \<noteq> []"
    by (simp add: ascii_def splitlines.simps)
  have h2: "(0::int) < 3" by simp
  from pages_partition_lines [OF h1 h2] h1 h2 show ?thesis by blast
qed

text \<open>
  C4. For a positive budget, a line of the text whose own word count exceeds the budget
  is a page by itself: the page list is the pages that hold exactly the lines before it,
  then the line as a page of one line, then the pages that hold exactly the lines after
  it. The line is neither dropped nor split.
\<close>

theorem over_budget_line_alone:
  assumes "0 < words_per_page" and "i < length (splitlines text)"
    and "words_in_line (splitlines text ! i) > words_per_page"
  shows "\<exists>before after.
           chunk_into_pages_by_words_and_lines text words_per_page =
             before @ [splitlines text ! i] @ after \<and>
           split_nl (splitlines text ! i) = [splitlines text ! i] \<and>
           concat (map split_nl before) = take i (splitlines text) \<and>
           concat (map split_nl after) = drop (Suc i) (splitlines text)"
proof -
  let ?ls = "splitlines text"
  let ?w = words_per_page
  from finish_slice_loop_alone [OF assms(2,3), of 0 "[]"]
  obtain pre post where
    pp: "page_slices ?ls ?w = pre @ [[?ls ! i]] @ post"
      "concat pre = take i ?ls" "concat post = drop (Suc i) ?ls"
    by (auto simp: page_slices_def)
  have pages: "chunk_into_pages_by_words_and_lines text ?w =
               map join_nl pre @ [?ls ! i] @ map join_nl post"
    by (simp add: chunk_into_pages_slices pp(1))
  have "map split_nl (chunk_into_pages_by_words_and_lines text ?w) = pre @ [[?ls ! i]] @ post"
    by (simp add: map_split_nl_pages pp(1))
  then have sp: "map split_nl (map join_nl pre) = pre" "split_nl (?ls ! i) = [?ls ! i]"
    "map split_nl (map join_nl post) = post"
    unfolding pages by simp_all
  show ?thesis
  proof (intro exI conjI)
    show "chunk_into_pages_by_words_and_lines text ?w =
          map join_nl pre @ [?ls ! i] @ map join_nl post"
      by (rule pages)
    show "split_nl (?ls ! i) = [?ls ! i]" by (rule sp(2))
    show "concat (map split_nl (map join_nl pre)) = take i ?ls"
      by (simp only: sp(1) pp(2))
    show "concat (map split_nl (map join_nl post)) = drop (Suc i) ?ls"
      by (simp only: sp(3) pp(3))
  qed
qed

theorem over_budget_line_alone_witness:
  "(0::int) < 2 \<and> (1::nat) < length (splitlines (ascii ''a b'' @ [10] @ ascii ''c d e'' @ [10] @ ascii ''f'')) \<and>
   words_in_line (splitlines (ascii ''a b'' @ [10] @ ascii ''c d e'' @ [10] @ ascii ''f'') ! 1) > 2 \<and>
   (\<exists>before after.
      chunk_into_pages_by_words_and_lines (ascii ''a b'' @ [10] @ ascii ''c d e'' @ [10] @ ascii ''f'') 2 =
        before @ [splitlines (ascii ''a b'' @ [10] @ ascii ''c d e'' @ [10] @ ascii ''f'') ! 1] @ after \<and>
      split_nl (splitlines (ascii ''a b'' @ [10] @ ascii ''c d e'' @ [10] @ ascii ''f'') ! 1) =
        [splitlines (ascii ''a b'' @ [10] @ ascii ''c d e'' @ [10] @ ascii ''f'') ! 1] \<and>
      concat (map split_nl before) = take 1 (splitlines (ascii ''a b'' @ [10] @ ascii ''c d e'' @ [10] @ ascii ''f'')) \<and>
      concat (map split_nl after) = drop (Suc 1) (splitlines (ascii ''a b'' @ [10] @ ascii ''c d e'' @ [10] @ ascii ''f'')))"
proof -
  let ?t = "ascii ''a b'' @ [10] @ ascii ''c d e'' @ [10] @ ascii ''f''"
  have ls: "splitlines ?t = [ascii ''a b'', ascii ''c d e'', ascii ''f'']"
    by (simp add: ascii_def splitlines.simps is_linebreak_def)
  have h1: "(0::int) < 2" by simp
  have h2: "(1::nat) < length (splitlines ?t)"
    unfolding ls by simp
  have h3: "words_in_line (splitlines ?t ! 1) > 2"
    unfolding ls
    by (simp add: ascii_def words_in_line_def strip_def lstrip_def rstrip_def split_ws_def
        isspace_def)
  from over_budget_line_alone [OF h1 h2 h3] h1 h2 h3 show ?thesis by blast
qed

text \<open>
  C6. For a positive budget, every page is \<open>"\n".join\<close> of a list of lines that is not
  empty, and these are the lines the page shows when it is split at its line feeds; the
  empty text gives no page at all.
\<close>

theorem no_empty_page:
  assumes "0 < words_per_page"
  shows "chunk_into_pages_by_words_and_lines text words_per_page =
           map join_nl (page_slices (splitlines text) words_per_page) \<and>
         (\<forall>current_lines \<in> set (page_slices (splitlines text) words_per_page).
            current_lines \<noteq> [] \<and> split_nl (join_nl current_lines) = current_lines) \<and>
         chunk_into_pages_by_words_and_lines [] words_per_page = []"
proof (intro conjI ballI)
  show "chunk_into_pages_by_words_and_lines text words_per_page =
        map join_nl (page_slices (splitlines text) words_per_page)"
    by (rule chunk_into_pages_slices)
next
  fix current_lines
  assume "current_lines \<in> set (page_slices (splitlines text) words_per_page)"
  then have "current_lines \<noteq> [] \<and> split_nl (join_nl current_lines) = current_lines"
    by (rule page_slices_split_nl)
  then show "current_lines \<noteq> []" and "split_nl (join_nl current_lines) = current_lines"
    by simp_all
next
  show "chunk_into_pages_by_words_and_lines [] words_per_page = []"
    by (simp add: chunk_into_pages_by_words_and_lines_def splitlines_Nil)
qed

theorem no_empty_page_witness:
  "(0::int) < 1 \<and>
   chunk_into_pages_by_words_and_lines (ascii ''a'' @ [10, 10] @ ascii ''b c'') 1 =
     map join_nl (page_slices (splitlines (ascii ''a'' @ [10, 10] @ ascii ''b c'')) 1) \<and>
   list_all (\<lambda>current_lines. current_lines \<noteq> [] \<and> split_nl (join_nl current_lines) = current_lines)
     (page_slices (splitlines (ascii ''a'' @ [10, 10] @ ascii ''b c'')) 1) \<and>
   page_slices (splitlines (ascii ''a'' @ [10, 10] @ ascii ''b c'')) 1 = [[[97], []], [[98, 32, 99]]] \<and>
   chunk_into_pages_by_words_and_lines [] 1 = []"
proof -
  let ?t = "ascii ''a'' @ [10, 10] @ ascii ''b c''"
  have h: "(0::int) < 1" by simp
  have ls: "splitlines ?t = [[97], [], [98, 32, 99]]"
    by (simp add: ascii_def splitlines.simps is_linebreak_def)
  have sl: "page_slices (splitlines ?t) 1 = [[[97], []], [[98, 32, 99]]]"
    unfolding ls
    by (simp add: page_slices_def finish_def words_in_line_def strip_def lstrip_def rstrip_def
        split_ws_def isspace_def)
  from no_empty_page [OF h, of ?t] h sl show ?thesis
    by (simp only: list_all_iff) blast
qed

text \<open>
  C7. For a positive budget, the empty text gives the empty page list, and a text that has
  lines, all of them empty or of white space only, gives exactly one page, which holds all
  of these lines.
\<close>

theorem empty_and_blank_input:
  assumes "0 < words_per_page"
  shows "chunk_into_pages_by_words_and_lines [] words_per_page = [] \<and>
         (splitlines text \<noteq> [] \<and> (\<forall>line \<in> set (splitlines text). \<forall>c \<in> set line. isspace c) \<longrightarrow>
            chunk_into_pages_by_words_and_lines text words_per_page = [join_nl (splitlines text)] \<and>
            split_nl (join_nl (splitlines text)) = splitlines text)"
proof (intro conjI impI)
  show "chunk_into_pages_by_words_and_lines [] words_per_page = []"
    by (simp add: chunk_into_pages_by_words_and_lines_def splitlines_Nil)
next
  assume blank: "splitlines text \<noteq> [] \<and> (\<forall>line \<in> set (splitlines text). \<forall>c \<in> set line. isspace c)"
  then have "\<forall>line \<in> set (splitlines text). words_in_line line = 0"
    by (simp add: words_in_line_blank)
  then have "finish (slice_loop words_per_page (splitlines text) ([], [], 0)) = [[] @ splitlines text]"
    using assms blank by (intro finish_slice_loop_blank) simp_all
  then show "chunk_into_pages_by_words_and_lines text words_per_page = [join_nl (splitlines text)]"
    by (simp add: chunk_into_pages_slices page_slices_def)
  show "split_nl (join_nl (splitlines text)) = splitlines text"
    using blank by (intro split_nl_join_nl) (auto dest: splitlines_no_lf)
qed

theorem empty_and_blank_input_witness:
  "(0::int) < 5 \<and> chunk_into_pages_by_words_and_lines [] 5 = [] \<and>
   splitlines [10, 32, 10, 9, 32] = [[], [32], [9, 32]] \<and>
   list_all (list_all isspace) (splitlines [10, 32, 10, 9, 32]) \<and>
   chunk_into_pages_by_words_and_lines [10, 32, 10, 9, 32] 5 =
     [join_nl (splitlines [10, 32, 10, 9, 32])] \<and>
   split_nl (join_nl (splitlines [10, 32, 10, 9, 32])) = splitlines [10, 32, 10, 9, 32]"
proof -
  have h: "(0::int) < 5" by simp
  have ls: "splitlines [10, 32, 10, 9, 32] = [[], [32], [9, 32]]"
    by (simp add: splitlines.simps is_linebreak_def)
  have ne: "splitlines [10, 32, 10, 9, 32] \<noteq> []"
    unfolding ls by simp
  have sp: "list_all (list_all isspace) (splitlines [10, 32, 10, 9, 32])"
    unfolding ls by (simp add: isspace_def)
  then have "\<forall>line \<in> set (splitlines [10, 32, 10, 9, 32]). \<forall>c \<in> set line. isspace c"
    by (simp add: list_all_iff)
  with empty_and_blank_input [OF h, of "[10, 32, 10, 9, 32]"] h ls ne sp show ?thesis
    by blast
qed

text \<open>
  C10. For a positive budget, the word counts of the lines of a page add up to at most the
  budget, or the page has exactly one line.
\<close>

theorem page_within_budget_or_single_line:
  assumes "0 < words_per_page"
    and "page \<in> set (chunk_into_pages_by_words_and_lines text words_per_page)"
  shows "sum_list (map words_in_line (split_nl page)) \<le> words_per_page \<or>
         length (split_nl page) = 1"
proof -
  from assms(2) obtain current_lines where
    cl: "current_lines \<in> set (page_slices (splitlines text) words_per_page)"
      "page = join_nl current_lines"
    by (auto simp: chunk_into_pages_slices)
  then have sp: "split_nl page = current_lines"
    using page_slices_split_nl by blast
  have "sum_list (map words_in_line current_lines) \<le> words_per_page \<or> length current_lines = 1"
  proof (rule finish_slice_loop_budget)
    show "sum_list (map words_in_line []) = (0::int)" by simp
    show "(0::int) \<le> words_per_page \<or> length ([]::ustring list) \<le> 1" by simp
    show "current_lines \<in> set (finish (slice_loop words_per_page (splitlines text) ([], [], 0)))"
      using cl(1) by (simp add: page_slices_def)
  qed
  then show ?thesis by (simp only: sp)
qed

theorem page_within_budget_or_single_line_witness:
  "(0::int) < 2 \<and>
   chunk_into_pages_by_words_and_lines (ascii ''a'' @ [10] @ ascii ''b'' @ [10] @ ascii ''c d e'') 2 =
     [[97, 10, 98], [99, 32, 100, 32, 101]] \<and>
   sum_list (map words_in_line (split_nl [97, 10, 98])) \<le> 2 \<and>
   length (split_nl [99, 32, 100, 32, 101]) = 1"
proof -
  let ?t = "ascii ''a'' @ [10] @ ascii ''b'' @ [10] @ ascii ''c d e''"
  have h: "(0::int) < 2" by simp
  have ls: "splitlines ?t = [[97], [98], [99, 32, 100, 32, 101]]"
    by (simp add: ascii_def splitlines.simps is_linebreak_def)
  have pg: "chunk_into_pages_by_words_and_lines ?t 2 = [[97, 10, 98], [99, 32, 100, 32, 101]]"
    unfolding chunk_into_pages_by_words_and_lines_def ls
    by (simp add: words_in_line_def strip_def lstrip_def rstrip_def split_ws_def isspace_def)
  have m1: "[97, 10, 98] \<in> set (chunk_into_pages_by_words_and_lines ?t 2)"
    and m2: "[99, 32, 100, 32, 101] \<in> set (chunk_into_pages_by_words_and_lines ?t 2)"
    unfolding pg by simp_all
  have w1: "\<not> length (split_nl [97, 10, 98]) = 1"
    by (simp add: split_nl_def)
  have w2: "\<not> sum_list (map words_in_line (split_nl [99, 32, 100, 32, 101])) \<le> 2"
    by (simp add: split_nl_def words_in_line_def strip_def lstrip_def rstrip_def split_ws_def
        isspace_def)
  from page_within_budget_or_single_line [OF h m1] page_within_budget_or_single_line [OF h m2]
    w1 w2 h pg
  show ?thesis by blast
qed

section \<open>Properties of page selection\<close>

lemmas date_eval =
  toordinal_def days_before_year_def days_before_month_def is_leap_def

text \<open>The index that is selected when \<open>today\<close> is given.\<close>

lemma pick_page_index:
  assumes "image_paths \<noteq> []"
  shows "pick_page_for_date clock image_paths start_date (Some today) =
         Inr (image_paths !
           nat (max 0 (toordinal today - toordinal start_date) mod int (length image_paths)))"
proof -
  have "(if toordinal today - toordinal start_date < 0 then 0
         else toordinal today - toordinal start_date) =
        max 0 (toordinal today - toordinal start_date)"
    by simp
  then show ?thesis
    using assms unfolding pick_page_for_date_def Let_def option.case by simp
qed

text \<open>
  C5. For a page list that is not empty, \<open>pick_page_for_date\<close> returns the first page
  when \<open>today\<close> is the start date, and also when \<open>today\<close> is earlier than the start date
  (the difference in days is negative and is clamped to zero).
\<close>

theorem first_page_on_or_before_start:
  assumes "image_paths \<noteq> []"
  shows "pick_page_for_date clock image_paths start_date (Some start_date) = Inr (image_paths ! 0) \<and>
         (toordinal today < toordinal start_date \<longrightarrow>
            pick_page_for_date clock image_paths start_date (Some today) = Inr (image_paths ! 0))"
  using assms by (simp add: pick_page_index)

theorem first_page_on_or_before_start_witness:
  "[''page_001.png'', ''page_002.png'', ''page_003.png''] \<noteq> [] \<and>
   pick_page_for_date \<lparr>year = 2024, month = 3, day = 1\<rparr>
     [''page_001.png'', ''page_002.png'', ''page_003.png'']
     \<lparr>year = 2024, month = 1, day = 10\<rparr> (Some \<lparr>year = 2024, month = 1, day = 10\<rparr>) =
     Inr ([''page_001.png'', ''page_002.png'', ''page_003.png''] ! 0) \<and>
   toordinal \<lparr>year = 2023, month = 12, day = 31\<rparr> < toordinal \<lparr>year = 2024, month = 1, day = 10\<rparr> \<and>
   pick_page_for_date \<lparr>year = 2024, month = 3, day = 1\<rparr>
     [''page_001.png'', ''page_002.png'', ''page_003.png'']
     \<lparr>year = 2024, month = 1, day = 10\<rparr> (Some \<lparr>year = 2023, month = 12, day = 31\<rparr>) =
     Inr ([''page_001.png'', ''page_002.png'', ''page_003.png''] ! 0)"
proof -
  have h1: "[''page_001.png'', ''page_002.png'', ''page_003.png''] \<noteq> []" by simp
  have h2: "toordinal \<lparr>year = 2023, month = 12, day = 31\<rparr> <
            toordinal \<lparr>year = 2024, month = 1, day = 10\<rparr>"
    by (simp add: date_eval)
  note inst = first_page_on_or_before_start [OF h1,
      of "\<lparr>year = 2024, month = 3, day = 1\<rparr>" "\<lparr>year = 2024, month = 1, day = 10\<rparr>"
         "\<lparr>year = 2023, month = 12, day = 31\<rparr>"]
  from inst have a: "pick_page_for_date \<lparr>year = 2024, month = 3, day = 1\<rparr>
     [''page_001.png'', ''page_002.png'', ''page_003.png'']
     \<lparr>year = 2024, month = 1, day = 10\<rparr> (Some \<lparr>year = 2024, month = 1, day = 10\<rparr>) =
     Inr ([''page_001.png'', ''page_002.png'', ''page_003.png''] ! 0)"
    by (rule conjunct1)
  from inst [THEN conjunct2, THEN mp, OF h2] have b: "pick_page_for_date \<lparr>year = 2024, month = 3, day = 1\<rparr>
     [''page_001.png'', ''page_002.png'', ''page_003.png'']
     \<lparr>year = 2024, month = 1, day = 10\<rparr> (Some \<lparr>year = 2023, month = 12, day = 31\<rparr>) =
     Inr ([''page_001.png'', ''page_002.png'', ''page_003.png''] ! 0)" .
  from h1 a h2 b show ?thesis by (intro conjI)
qed

text \<open>
  C2, as stated, fails: with three pages and the start date 2024-01-10, the day before
  the start date selects the first page (clamped), the date three days later selects the
  third.
\<close>

theorem rotation_periodic_counterexample:
  "[''page_001.png'', ''page_002.png'', ''page_003.png''] \<noteq> [] \<and> (0::int) \<le> 1 \<and>
   toordinal \<lparr>year = 2024, month = 1, day = 12\<rparr> =
     toordinal \<lparr>year = 2024, month = 1, day = 9\<rparr> +
     1 * int (length [''page_001.png'', ''page_002.png'', ''page_003.png'']) \<and>
   pick_page_for_date \<lparr>year = 2024, month = 1, day = 9\<rparr>
     [''page_001.png'', ''page_002.png'', ''page_003.png'']
     \<lparr>year = 2024, month = 1, day = 10\<rparr> (Some \<lparr>year = 2024, month = 1, day = 9\<rparr>) =
     Inr ''page_001.png'' \<and>
   pick_page_for_date \<lparr>year = 2024, month = 1, day = 9\<rparr>
     [''page_001.png'', ''page_002.png'', ''page_003.png'']
     \<lparr>year = 2024, month = 1, day = 10\<rparr> (Some \<lparr>year = 2024, month = 1, day = 12\<rparr>) =
     Inr ''page_003.png'' \<and>
   pick_page_for_date \<lparr>year = 2024, month = 1, day = 9\<rparr>
     [''page_001.png'', ''page_002.png'', ''page_003.png'']
     \<lparr>year = 2024, month = 1, day = 10\<rparr> (Some \<lparr>year = 2024, month = 1, day = 12\<rparr>) \<noteq>
   pick_page_for_date \<lparr>year = 2024, month = 1, day = 9\<rparr>
     [''page_001.png'', ''page_002.png'', ''page_003.png'']
     \<lparr>year = 2024, month = 1, day = 10\<rparr> (Some \<lparr>year = 2024, month = 1, day = 9\<rparr>)"
proof -
  let ?pages = "[''page_001.png'', ''page_002.png'', ''page_003.png'']"
  have o9: "toordinal \<lparr>year = 2024, month = 1, day = 9\<rparr> = 738894"
    and o10: "toordinal \<lparr>year = 2024, month = 1, day = 10\<rparr> = 738895"
    and o12: "toordinal \<lparr>year = 2024, month = 1, day = 12\<rparr> = 738897"
    by (simp_all add: date_eval)
  have h1: "?pages \<noteq> []" by simp
  have h2: "(0::int) \<le> 1" by simp
  have h3: "toordinal \<lparr>year = 2024, month = 1, day = 12\<rparr> =
            toordinal \<lparr>year = 2024, month = 1, day = 9\<rparr> + 1 * int (length ?pages)"
    unfolding o9 o12 by simp
  have p9: "pick_page_for_date \<lparr>year = 2024, month = 1, day = 9\<rparr> ?pages
              \<lparr>year = 2024, month = 1, day = 10\<rparr> (Some \<lparr>year = 2024, month = 1, day = 9\<rparr>) =
            Inr ''page_001.png''"
    unfolding pick_page_index [OF h1] o9 o10 by simp
  have p12: "pick_page_for_date \<lparr>year = 2024, month = 1, day = 9\<rparr> ?pages
              \<lparr>year = 2024, month = 1, day = 10\<rparr> (Some \<lparr>year = 2024, month = 1, day = 12\<rparr>) =
            Inr ''page_003.png''"
    unfolding pick_page_index [OF h1] o10 o12 by simp
  have ne: "pick_page_for_date \<lparr>year = 2024, month = 1, day = 9\<rparr> ?pages
              \<lparr>year = 2024, month = 1, day = 10\<rparr> (Some \<lparr>year = 2024, month = 1, day = 12\<rparr>) \<noteq>
            pick_page_for_date \<lparr>year = 2024, month = 1, day = 9\<rparr> ?pages
              \<lparr>year = 2024, month = 1, day = 10\<rparr> (Some \<lparr>year = 2024, month = 1, day = 9\<rparr>)"
    unfolding p9 p12 by simp
  from h1 h2 h3 p9 p12 ne show ?thesis by (intro conjI)
qed

text \<open>
  C2, amended. For a page list that is not empty, a date \<open>today\<close> that is not earlier than
  the start date (or is earlier by a whole multiple of the page count), and \<open>N \<ge> 0\<close>, the
  date \<open>N * len(pages)\<close> days after \<open>today\<close> selects the page that \<open>today\<close> selects.
\<close>

theorem rotation_periodic_from_start:
  assumes "image_paths \<noteq> []" and "0 \<le> N"
    and "toordinal later = toordinal today + N * int (length image_paths)"
    and "toordinal start_date \<le> toordinal today \<or>
         int (length image_paths) dvd toordinal start_date - toordinal today"
  shows "pick_page_for_date clock image_paths start_date (Some later) =
         pick_page_for_date clock image_paths start_date (Some today)"
proof -
  let ?n = "int (length image_paths)"
  let ?d = "toordinal today - toordinal start_date"
  have later: "toordinal later - toordinal start_date = ?d + N * ?n"
    using assms(3) by simp
  have step: "0 \<le> N * ?n" using assms(2) by simp
  have "max 0 (?d + N * ?n) mod ?n = max 0 ?d mod ?n"
    using assms(4)
  proof
    assume "toordinal start_date \<le> toordinal today"
    then have "0 \<le> ?d" by simp
    moreover from this step have "0 \<le> ?d + N * ?n" by arith
    ultimately show ?thesis by (simp add: max_def)
  next
    assume "?n dvd toordinal start_date - toordinal today"
    then have "?n dvd - (toordinal start_date - toordinal today)"
      by (simp only: dvd_minus_iff)
    then have "?n dvd ?d" by simp
    then have "?d mod ?n = 0" "(?d + N * ?n) mod ?n = 0" by simp_all
    then show ?thesis by (simp add: max_def)
  qed
  then show ?thesis
    by (simp only: pick_page_index [OF assms(1)] later)
qed

theorem rotation_periodic_from_start_witness:
  "[''page_001.png'', ''page_002.png'', ''page_003.png'', ''page_004.png'', ''page_005.png''] \<noteq> [] \<and>
   (0::int) \<le> 2 \<and>
   toordinal \<lparr>year = 2024, month = 1, day = 18\<rparr> =
     toordinal \<lparr>year = 2024, month = 1, day = 8\<rparr> +
     2 * int (length [''page_001.png'', ''page_002.png'', ''page_003.png'', ''page_004.png'', ''page_005.png'']) \<and>
   toordinal \<lparr>year = 2024, month = 1, day = 1\<rparr> \<le> toordinal \<lparr>year = 2024, month = 1, day = 8\<rparr> \<and>
   pick_page_for_date \<lparr>year = 2024, month = 1, day = 8\<rparr>
     [''page_001.png'', ''page_002.png'', ''page_003.png'', ''page_004.png'', ''page_005.png'']
     \<lparr>year = 2024, month = 1, day = 1\<rparr> (Some \<lparr>year = 2024, month = 1, day = 18\<rparr>) =
   pick_page_for_date \<lparr>year = 2024, month = 1, day = 8\<rparr>
     [''page_001.png'', ''page_002.png'', ''page_003.png'', ''page_004.png'', ''page_005.png'']
     \<lparr>year = 2024, month = 1, day = 1\<rparr> (Some \<lparr>year = 2024, month = 1, day = 8\<rparr>) \<and>
   pick_page_for_date \<lparr>year = 2024, month = 1, day = 8\<rparr>
     [''page_001.png'', ''page_002.png'', ''page_003.png'', ''page_004.png'', ''page_005.png'']
     \<lparr>year = 2024, month = 1, day = 1\<rparr> (Some \<lparr>year = 2024, month = 1, day = 8\<rparr>) =
     Inr ''page_003.png''"
proof -
  let ?pages = "[''page_001.png'', ''page_002.png'', ''page_003.png'', ''page_004.png'', ''page_005.png'']"
  have o1: "toordinal \<lparr>year = 2024, month = 1, day = 1\<rparr> = 738886"
    and o8: "toordinal \<lparr>year = 2024, month = 1, day = 8\<rparr> = 738893"
    and o18: "toordinal \<lparr>year = 2024, month = 1, day = 18\<rparr> = 738903"
    by (simp_all add: date_eval)
  have h1: "?pages \<noteq> []" by simp
  have h2: "(0::int) \<le> 2" by simp
  have h3: "toordinal \<lparr>year = 2024, month = 1, day = 18\<rparr> =
            toordinal \<lparr>year = 2024, month = 1, day = 8\<rparr> + 2 * int (length ?pages)"
    unfolding o8 o18 by simp
  have h4: "toordinal \<lparr>year = 2024, month = 1, day = 1\<rparr> \<le>
            toordinal \<lparr>year = 2024, month = 1, day = 8\<rparr>"
    unfolding o1 o8 by simp
  have ex: "pick_page_for_date \<lparr>year = 2024, month = 1, day = 8\<rparr> ?pages
              \<lparr>year = 2024, month = 1, day = 1\<rparr> (Some \<lparr>year = 2024, month = 1, day = 8\<rparr>) =
            Inr ''page_003.png''"
    unfolding pick_page_index [OF h1] o1 o8 by simp
  have eq: "pick_page_for_date \<lparr>year = 2024, month = 1, day = 8\<rparr> ?pages
              \<lparr>year = 2024, month = 1, day = 1\<rparr> (Some \<lparr>year = 2024, month = 1, day = 18\<rparr>) =
            pick_page_for_date \<lparr>year = 2024, month = 1, day = 8\<rparr> ?pages
              \<lparr>year = 2024, month = 1, day = 1\<rparr> (Some \<lparr>year = 2024, month = 1, day = 8\<rparr>)"
    by (rule rotation_periodic_from_start [OF h1 h2 h3 disjI1 [OF h4]])
  from h1 h2 h3 h4 eq ex show ?thesis by (intro conjI)
qed

section \<open>Properties of the rotation state\<close>

text \<open>
  What \<open>get_or_create_start_date\<close> recovers from: no file, a document without the key,
  a document that is not a dict, a start date that is not a string or not a date. A file
  that \<open>json.loads\<close> rejects is not among them.
\<close>

lemma absent_state_reset:
  "fs (meta_path slug) = None \<Longrightarrow>
   get_or_create_start_date clock fs slug = reset_start_date clock fs slug"
  by (simp add: get_or_create_start_date_def)

lemma unreadable_start_date_reset:
  "fs (meta_path slug) = Some (Document data) \<Longrightarrow> read_start_date data = Inl e \<Longrightarrow>
   get_or_create_start_date clock fs slug = reset_start_date clock fs slug"
  by (simp add: get_or_create_start_date_def)

lemma missing_key_unreadable:
  "map_of items (ascii ''start_date'') = None \<Longrightarrow> read_start_date (JDict items) = Inl KeyError"
  by (simp add: read_start_date_def)

lemma invalid_date_unreadable:
  "map_of items (ascii ''start_date'') = Some (JStr s) \<Longrightarrow> fromisoformat s = Inl e \<Longrightarrow>
   read_start_date (JDict items) = Inl e"
  by (simp add: read_start_date_def)

lemma malformed_state_raises:
  "fs (meta_path slug) = Some Malformed \<Longrightarrow>
   get_or_create_start_date clock fs slug = (Inl JSONDecodeError, fs)"
  by (simp add: get_or_create_start_date_def)

text \<open>\<open>date.fromisoformat\<close> reads what \<open>date.isoformat\<close> writes.\<close>

lemma digit_char_digit: "48 \<le> digit_char n \<and> digit_char n \<le> 57 \<and> int (digit_char n) - 48 = n mod 10"
proof -
  have "0 \<le> n mod 10" "n mod 10 < 10" by simp_all
  then show ?thesis unfolding digit_char_def by simp
qed

lemma two_digits:
  assumes "0 \<le> (n::int)" and "n \<le> 99"
  shows "10 * (n div 10 mod 10) + n mod 10 = n"
proof -
  have "0 \<le> n div 10" using assms(1) by simp
  moreover have "n div 10 < 10" using assms(2) by simp
  ultimately have "n div 10 mod 10 = n div 10" by simp
  then show ?thesis by simp
qed

lemma four_digits:
  assumes "0 \<le> (n::int)" and "n \<le> 9999"
  shows "10 * (10 * (10 * (n div 1000 mod 10) + n div 100 mod 10) + n div 10 mod 10) + n mod 10 = n"
proof -
  have h: "n div 100 = n div 10 div 10" "n div 1000 = n div 100 div 10"
    by (simp_all add: zdiv_zmult2_eq [symmetric])
  have "0 \<le> n div 1000" using assms(1) by simp
  moreover have "n div 1000 < 10" using assms(2) by simp
  ultimately have top: "n div 1000 mod 10 = n div 1000" by simp
  have "10 * (n div 1000) + n div 100 mod 10 = n div 100"
    unfolding h(2) by simp
  moreover have "10 * (n div 100) + n div 10 mod 10 = n div 10"
    unfolding h(1) by simp
  moreover have "10 * (n div 10) + n mod 10 = n" by simp
  ultimately show ?thesis unfolding top by simp
qed

lemma parse_digits_digit_char:
  "parse_digits acc (digit_char k # cs) = parse_digits (10 * acc + k mod 10) cs"
  using digit_char_digit [of k] by simp

lemma parse_two_digits:
  assumes "0 \<le> n" and "n \<le> 99"
  shows "parse_digits 0 [digit_char (n div 10), digit_char n] = Some n"
proof -
  have "parse_digits 0 [digit_char (n div 10), digit_char n] =
        Some (10 * (10 * 0 + n div 10 mod 10) + n mod 10)"
    by (simp only: parse_digits_digit_char parse_digits.simps(1))
  also have "10 * (10 * 0 + n div 10 mod 10) + n mod 10 = 10 * (n div 10 mod 10) + n mod 10"
    by (simp only: mult_zero_right add_0_left)
  also have "\<dots> = n" by (rule two_digits [OF assms])
  finally show ?thesis .
qed

lemma parse_four_digits:
  assumes "0 \<le> n" and "n \<le> 9999"
  shows "parse_digits 0 [digit_char (n div 1000), digit_char (n div 100), digit_char (n div 10),
           digit_char n] = Some n"
proof -
  have "parse_digits 0 [digit_char (n div 1000), digit_char (n div 100), digit_char (n div 10),
          digit_char n] =
        Some (10 * (10 * (10 * (10 * 0 + n div 1000 mod 10) + n div 100 mod 10) +
          n div 10 mod 10) + n mod 10)"
    by (simp only: parse_digits_digit_char parse_digits.simps(1))
  also have "10 * (10 * (10 * (10 * 0 + n div 1000 mod 10) + n div 100 mod 10) +
          n div 10 mod 10) + n mod 10 =
        10 * (10 * (10 * (n div 1000 mod 10) + n div 100 mod 10) + n div 10 mod 10) + n mod 10"
    by (simp only: mult_zero_right add_0_left)
  also have "\<dots> = n" by (rule four_digits [OF assms])
  finally show ?thesis .
qed

lemma days_in_month_le:
  assumes "1 \<le> m" and "m \<le> 12"
  shows "days_in_month y m \<le> 31"
proof -
  from assms have "m = 1 \<or> m = 2 \<or> m = 3 \<or> m = 4 \<or> m = 5 \<or> m = 6 \<or> m = 7 \<or> m = 8 \<or> m = 9 \<or>
      m = 10 \<or> m = 11 \<or> m = 12"
    by arith
  then show ?thesis by (auto simp: days_in_month_def)
qed

lemma fromisoformat_isoformat:
  assumes "valid_ymd (year d) (month d) (day d)"
  shows "fromisoformat (isoformat d) = Inr \<lparr>year = year d, month = month d, day = day d\<rparr>"
proof -
  from assms have y: "0 \<le> year d" "year d \<le> 9999" and m: "0 \<le> month d" "month d \<le> 99"
    and m': "1 \<le> month d" "month d \<le> 12" and d0: "0 \<le> day d"
    and dm: "day d \<le> days_in_month (year d) (month d)"
    by (simp_all add: valid_ymd_def)
  from dm days_in_month_le [OF m', of "year d"] have d1: "day d \<le> 99" by arith
  have shape: "length (isoformat d) = 10 \<and> isoformat d ! 4 = 45 \<and> isoformat d ! 7 = 45"
    by (simp add: isoformat_def)
  have t4: "take 4 (isoformat d) =
            [digit_char (year d div 1000), digit_char (year d div 100),
             digit_char (year d div 10), digit_char (year d)]"
    by (simp add: isoformat_def)
  have t2: "take 2 (drop 5 (isoformat d)) = [digit_char (month d div 10), digit_char (month d)]"
    by (simp add: isoformat_def)
  have d8: "drop 8 (isoformat d) = [digit_char (day d div 10), digit_char (day d)]"
    by (simp add: isoformat_def)
  show ?thesis
    unfolding fromisoformat_def t4 t2 d8 parse_four_digits [OF y] parse_two_digits [OF m]
      parse_two_digits [OF d0 d1]
    using shape assms by simp
qed

text \<open>After the first run has created the state, a later run returns the date of the first
  run and does not write.\<close>

lemma created_start_date_kept:
  assumes "fs (meta_path slug) = None" and "valid_ymd (year first) (month first) (day first)"
  shows "get_or_create_start_date later (snd (get_or_create_start_date first fs slug)) slug =
         (Inr \<lparr>year = year first, month = month first, day = day first\<rparr>,
          snd (get_or_create_start_date first fs slug))"
proof -
  have "get_or_create_start_date first fs slug = reset_start_date first fs slug"
    using assms(1) by (simp add: get_or_create_start_date_def)
  then show ?thesis
    by (simp add: reset_start_date_def get_or_create_start_date_def read_start_date_def
        fromisoformat_isoformat [OF assms(2)])
qed

text \<open>
  C3. The claim fails on a file that is not valid JSON: with such a file for the slug
  \<open>pulp_fiction\<close>, \<open>get_or_create_start_date\<close> ends with the JSONDecodeError of
  \<open>json.loads\<close> and writes nothing, where the claim has it return the current date and
  persist it.
\<close>

theorem invalid_json_state_raises:
  "get_or_create_start_date \<lparr>year = 2024, month = 3, day = 5\<rparr>
     [meta_path (ascii ''pulp_fiction'') \<mapsto> Malformed] (ascii ''pulp_fiction'') =
   (Inl JSONDecodeError, [meta_path (ascii ''pulp_fiction'') \<mapsto> Malformed])"
  by (simp add: get_or_create_start_date_def)




section \<open>Properties of the text normaliser\<close>

text \<open>
  The substitutions of lines 46 to 52 commute with \<open>splitlines\<close>: they neither make nor
  remove a line boundary.
\<close>

lemma keeps_lines_takeWhile:
  assumes "keeps_lines f"
  shows "takeWhile (\<lambda>c. \<not> is_linebreak c) (concat (map f s)) =
         concat (map f (takeWhile (\<lambda>c. \<not> is_linebreak c) s))"
proof (induction s)
  case Nil
  show ?case by simp
next
  case (Cons c s)
  show ?case
  proof (cases "is_linebreak c")
    case True
    with assms have "f c = [c]" by (simp add: keeps_lines_def)
    with True show ?thesis by simp
  next
    case False
    with assms have "\<forall>x\<in>set (f c). \<not> is_linebreak x" by (simp add: keeps_lines_def)
    with False Cons show ?thesis by (simp add: takeWhile_append2)
  qed
qed

lemma keeps_lines_dropWhile:
  assumes "keeps_lines f"
  shows "dropWhile (\<lambda>c. \<not> is_linebreak c) (concat (map f s)) =
         concat (map f (dropWhile (\<lambda>c. \<not> is_linebreak c) s))"
proof (induction s)
  case Nil
  show ?case by simp
next
  case (Cons c s)
  show ?case
  proof (cases "is_linebreak c")
    case True
    with assms have "f c = [c]" by (simp add: keeps_lines_def)
    with True show ?thesis by simp
  next
    case False
    with assms have "\<forall>x\<in>set (f c). \<not> is_linebreak x" by (simp add: keeps_lines_def)
    with False Cons show ?thesis by (simp add: dropWhile_append2)
  qed
qed

lemma keeps_lines_skip_linebreak:
  assumes "keeps_lines f" and "d = [] \<or> is_linebreak (hd d)"
  shows "skip_linebreak (concat (map f d)) = concat (map f (skip_linebreak d))"
proof (cases d rule: skip_linebreak.cases)
  case 1
  then show ?thesis by simp
next
  case (2 c)
  with assms have "f c = [c]" by (simp add: keeps_lines_def)
  with 2 show ?thesis by simp
next
  case (3 c x r)
  with assms have fc: "f c = [c]" by (simp add: keeps_lines_def)
  show ?thesis
  proof (cases "is_linebreak x")
    case True
    with assms have "f x = [x]" by (simp add: keeps_lines_def)
    with 3 fc show ?thesis by simp
  next
    case False
    with assms have "f x \<noteq> []" and nb: "\<forall>y\<in>set (f x). \<not> is_linebreak y"
      by (simp_all add: keeps_lines_def)
    then obtain y ys where fx: "f x = y # ys" by (cases "f x") auto
    with nb have "\<not> is_linebreak y" by simp
    then have "y \<noteq> 10" by (auto simp: is_linebreak_def)
    moreover from False have "x \<noteq> 10" by (auto simp: is_linebreak_def)
    ultimately show ?thesis using 3 fc fx by simp
  qed
qed

lemma keeps_lines_splitlines:
  assumes "keeps_lines f"
  shows "splitlines (concat (map f s)) = map (\<lambda>l. concat (map f l)) (splitlines s)"
proof (induction s rule: splitlines.induct)
  case (1 s)
  show ?case
  proof (cases "s = []")
    case True
    then show ?thesis by (simp add: splitlines_Nil)
  next
    case False
    let ?P = "\<lambda>c. \<not> is_linebreak c"
    let ?d = "dropWhile ?P s"
    have ne: "concat (map f s) \<noteq> []"
    proof -
      from False obtain c r where "s = c # r" by (cases s) auto
      moreover have "f c \<noteq> []"
        using assms by (cases "is_linebreak c") (simp_all add: keeps_lines_def)
      ultimately show ?thesis by simp
    qed
    have hd: "?d = [] \<or> is_linebreak (hd ?d)"
      using hd_dropWhile [of ?P s] by auto
    have "splitlines (concat (map f s)) =
          takeWhile ?P (concat (map f s)) #
          splitlines (skip_linebreak (dropWhile ?P (concat (map f s))))"
      using ne by (subst splitlines.simps) simp
    also have "\<dots> = concat (map f (takeWhile ?P s)) #
                     splitlines (concat (map f (skip_linebreak ?d)))"
      by (simp only: keeps_lines_takeWhile [OF assms] keeps_lines_dropWhile [OF assms]
          keeps_lines_skip_linebreak [OF assms hd])
    also have "\<dots> = concat (map f (takeWhile ?P s)) #
                     map (\<lambda>l. concat (map f l)) (splitlines (skip_linebreak ?d))"
      using "1.IH" [OF False] by simp
    also have "\<dots> = map (\<lambda>l. concat (map f l)) (splitlines s)"
      using False by (subst (2) splitlines.simps) simp
    finally show ?thesis .
  qed
qed

lemma keeps_lines_replace:
  assumes "\<not> is_linebreak old" and "new \<noteq> []" and "\<forall>x\<in>set new. \<not> is_linebreak x"
  shows "keeps_lines (\<lambda>c. if c = old then new else [c])"
  using assms by (auto simp: keeps_lines_def)

lemma splitlines_replace_char:
  assumes "\<not> is_linebreak old" and "new \<noteq> []" and "\<forall>x\<in>set new. \<not> is_linebreak x"
  shows "splitlines (replace_char old new s) = map (replace_char old new) (splitlines s)"
  unfolding replace_char_def
  by (rule keeps_lines_splitlines [OF keeps_lines_replace [OF assms]])

lemma splitlines_replace_spaces:
  "splitlines (replace_spaces text) = map replace_spaces (splitlines text)"
proof -
  have sp: "[32::nat] \<noteq> []" "\<forall>x\<in>set [32::nat]. \<not> is_linebreak x"
    "[32::nat, 32, 32, 32] \<noteq> []" "\<forall>x\<in>set [32::nat, 32, 32, 32]. \<not> is_linebreak x"
    by (simp_all add: is_linebreak_def)
  have old: "\<not> is_linebreak 9" "\<not> is_linebreak 8239" "\<not> is_linebreak 8199" "\<not> is_linebreak 160"
    by (simp_all add: is_linebreak_def)
  have "splitlines (replace_spaces text) =
        map (replace_char 9 [32, 32, 32, 32])
          (map (replace_char 8239 [32])
            (map (replace_char 8199 [32]) (map (replace_char 160 [32]) (splitlines text))))"
    unfolding replace_spaces_def
    by (simp only: splitlines_replace_char [OF old(1) sp(3,4)]
        splitlines_replace_char [OF old(2) sp(1,2)]
        splitlines_replace_char [OF old(3) sp(1,2)]
        splitlines_replace_char [OF old(4) sp(1,2)])
  also have "\<dots> = map replace_spaces (splitlines text)"
    by (simp add: replace_spaces_def comp_def)
  finally show ?thesis .
qed

text \<open>
  The loop builds one cleaned line for each line of the input, in order. The normalised
  text has these lines, but for a last line that is empty: \<open>"\n".join\<close> writes no line
  feed after the last line, and \<open>splitlines\<close> reads no empty line at the end.
\<close>

lemma cleaned_lines_map: "cleaned_lines text = map clean_line (splitlines text)"
  by (simp add: cleaned_lines_def splitlines_replace_spaces clean_line_def comp_def)

lemma length_cleaned_lines: "length (cleaned_lines text) = length (splitlines text)"
  by (simp add: cleaned_lines_map)

lemma cleaned_lines_no_linebreak:
  assumes "l \<in> set (cleaned_lines text)" and "c \<in> set l"
  shows "\<not> is_linebreak c"
proof -
  from assms(1) obtain line where
    line: "line \<in> set (splitlines (replace_spaces text))"
      "l = rstrip_crlf (strip_leading_marks line)"
    by (auto simp: cleaned_lines_def)
  from assms(2) line(2) have "c \<in> set (dropWhile is_mark line)"
    by (auto simp: rstrip_crlf_def strip_leading_marks_def dest: set_dropWhileD)
  then have "c \<in> set line" by (rule set_dropWhileD)
  with line(1) show ?thesis by (rule splitlines_no_linebreak)
qed

lemma splitlines_normalise:
  "splitlines (normalise text) =
     (if cleaned_lines text \<noteq> [] \<and> last (cleaned_lines text) = []
      then butlast (cleaned_lines text) else cleaned_lines text)"
  unfolding normalise_def
  by (rule splitlines_join_nl) (auto dest: cleaned_lines_no_linebreak)

lemma length_splitlines_normalise:
  "length (splitlines (normalise text)) =
     (if splitlines text \<noteq> [] \<and> clean_line (last (splitlines text)) = []
      then length (splitlines text) - 1 else length (splitlines text))"
proof (cases "splitlines text = []")
  case True
  then show ?thesis by (simp add: splitlines_normalise cleaned_lines_map)
next
  case False
  then have "last (map clean_line (splitlines text)) = clean_line (last (splitlines text))"
    by (rule last_map)
  with False show ?thesis by (simp add: splitlines_normalise cleaned_lines_map)
qed

text \<open>
  C9. The claim fails on a text whose last line is empty: \<open>"END\n\n"\<close> has the two lines
  \<open>"END"\<close> and \<open>""\<close>, the normaliser builds these two lines and joins them to
  \<open>"END\n"\<close>, which has the one line \<open>"END"\<close>.
\<close>

theorem normalise_drops_final_empty_line:
  "splitlines (ascii ''END'' @ [10, 10]) = [ascii ''END'', []] \<and>
   cleaned_lines (ascii ''END'' @ [10, 10]) = [ascii ''END'', []] \<and>
   normalise (ascii ''END'' @ [10, 10]) = ascii ''END'' @ [10] \<and>
   splitlines (normalise (ascii ''END'' @ [10, 10])) = [ascii ''END''] \<and>
   length (splitlines (normalise (ascii ''END'' @ [10, 10]))) \<noteq>
   length (splitlines (ascii ''END'' @ [10, 10]))"
proof -
  have a: "splitlines (ascii ''END'' @ [10, 10]) = [ascii ''END'', []]"
    by (simp add: splitlines.simps is_linebreak_def ascii_def)
  have r: "replace_spaces (ascii ''END'' @ [10, 10]) = ascii ''END'' @ [10, 10]"
    by (simp add: replace_spaces_def replace_char_def ascii_def)
  have b: "cleaned_lines (ascii ''END'' @ [10, 10]) = [ascii ''END'', []]"
    unfolding cleaned_lines_def r a
    by (simp add: strip_leading_marks_def is_mark_def rstrip_crlf_def ascii_def)
  have c: "normalise (ascii ''END'' @ [10, 10]) = ascii ''END'' @ [10]"
    unfolding normalise_def b by simp
  have d: "splitlines (normalise (ascii ''END'' @ [10, 10])) = [ascii ''END'']"
    unfolding c by (simp add: splitlines.simps is_linebreak_def ascii_def)
  have e: "length (splitlines (normalise (ascii ''END'' @ [10, 10]))) \<noteq>
           length (splitlines (ascii ''END'' @ [10, 10]))"
    unfolding d a by simp
  from a b c d e show ?thesis by (intro conjI)
qed

end
